theory Spec2Isabelle
  imports Main "HOL-Library.Sublist" "HOL-Library.Multiset"
begin

section \<open>The documentation scraper of SuperMCP-CLI (src/src/scraper.js)\<close>

text \<open>
  A shallow embedding of the class \<open>DocumentationScraper\<close>. The object's fields are a
  record that every method takes and returns; the network, the URL parser of the
  JavaScript runtime, the HTML/XML selectors and the completion order of concurrently
  running fetches are the fields of a record \<open>world\<close>, so that every theorem holds
  for any network and any scheduling. JavaScript strings are modelled as \<open>string\<close>,
  numbers as \<open>int\<close>; a thrown exception is the left summand of a sum type; a loop
  that does not return is the value \<open>None\<close>. The wall-clock fields \<open>scrapedAt\<close> are
  not modelled.
\<close>

subsection \<open>JavaScript string primitives used by the scraper\<close>

text \<open>White space as matched by \<open>\s\<close> and removed by \<open>trim\<close>, on character codes below 256.\<close>

definition js_space :: "char \<Rightarrow> bool" where
  "js_space c = (c \<in> {CHR '' '', CHR 0x09, CHR 0x0A, CHR 0x0B, CHR 0x0C, CHR 0x0D, CHR 0xA0})"

definition js_trim :: "string \<Rightarrow> string" where
  "js_trim s = rev (dropWhile js_space (rev (dropWhile js_space s)))"

text \<open>\<open>s.startsWith(p)\<close> is \<open>prefix p s\<close>; \<open>s.includes(p)\<close> looks for \<open>p\<close> at every position.\<close>

fun js_includes :: "string \<Rightarrow> string \<Rightarrow> bool" where
  "js_includes [] p = (p = [])"
| "js_includes (c # cs) p = (prefix p (c # cs) \<or> js_includes cs p)"

text \<open>\<open>s.split(c)\<close> for a one-character separator: never the empty list.\<close>

fun js_split_char :: "char \<Rightarrow> string \<Rightarrow> string list" where
  "js_split_char c [] = [[]]"
| "js_split_char c (x # xs) =
     (if x = c then [] # js_split_char c xs
      else (case js_split_char c xs of
              [] \<Rightarrow> [[x]]
            | w # ws \<Rightarrow> (x # w) # ws))"

fun js_join :: "string \<Rightarrow> string list \<Rightarrow> string" where
  "js_join sep [] = []"
| "js_join sep [w] = w"
| "js_join sep (w # v # ws) = w @ sep @ js_join sep (v # ws)"

text \<open>\<open>href.split('#')[0]\<close>.\<close>

definition strip_fragment :: "string \<Rightarrow> string" where
  "strip_fragment href = (case js_split_char CHR ''#'' href of [] \<Rightarrow> [] | w # _ \<Rightarrow> w)"

text \<open>
  \<open>s.split(/\s+/)\<close>: the pieces between maximal runs of white space. A run at the start
  or at the end of \<open>s\<close> leaves an empty piece there, and the empty string gives one
  empty piece.
\<close>

fun js_split_ws :: "bool \<Rightarrow> string \<Rightarrow> string list" where
  "js_split_ws in_run [] = [[]]"
| "js_split_ws in_run (c # cs) =
     (if js_space c then (if in_run then js_split_ws True cs else [] # js_split_ws True cs)
      else (case js_split_ws False cs of
              [] \<Rightarrow> [[c]]
            | w # ws \<Rightarrow> (c # w) # ws))"

text \<open>\<open>xs.slice(0, e)\<close>: a negative end counts from the end of the array.\<close>

definition js_slice0 :: "'a list \<Rightarrow> int \<Rightarrow> 'a list" where
  "js_slice0 xs e = (if e < 0 then take (nat (int (length xs) + e)) xs else take (nat e) xs)"

text \<open>
  \<open>xs.splice(0, n)\<close> removes and returns the first \<open>n\<close> elements; a delete count
  below zero is zero. The pair is (removed, remaining).
\<close>

definition js_splice0 :: "'a list \<Rightarrow> int \<Rightarrow> 'a list \<times> 'a list" where
  "js_splice0 xs n = (take (nat n) xs, drop (nat n) xs)"

text \<open>\<open>x || d\<close> on an optional number: \<open>undefined\<close> and \<open>0\<close> are falsy.\<close>

definition js_or_default :: "int option \<Rightarrow> int \<Rightarrow> int" where
  "js_or_default x d = (case x of None \<Rightarrow> d | Some v \<Rightarrow> if v = 0 then d else v)"

text \<open>Truthiness of an optional string: \<open>undefined\<close> and \<open>''\<close> are falsy.\<close>

definition js_truthy :: "string option \<Rightarrow> bool" where
  "js_truthy x = (case x of None \<Rightarrow> False | Some s \<Rightarrow> s \<noteq> [])"

subsection \<open>Data model\<close>

record page =
  url :: string
  title :: string
  content :: string
  wordCount :: nat

record scrape_result =
  pageCount :: nat
  result_pages :: "page list"
  baseUrl :: "string option"

record options =
  opt_maxPages :: "int option"
  opt_timeout :: "int option"
  opt_concurrency :: "int option"
  opt_authHeader :: "string option"
  opt_cookies :: "string option"

record scraper =
  maxPages :: int
  timeout :: int
  concurrency :: int
  authHeader :: "string option"
  cookies :: "string option"
  visited :: "string set"
  queue :: "string list"
  pages :: "page list"

datatype error = TypeError

text \<open>The constructor, lines 13-22.\<close>

definition new_scraper :: "options \<Rightarrow> scraper" where
  "new_scraper opts =
     \<lparr> maxPages = js_or_default (opt_maxPages opts) 200,
       timeout = js_or_default (opt_timeout opts) 5000,
       concurrency = js_or_default (opt_concurrency opts) 5,
       authHeader = opt_authHeader opts,
       cookies = opt_cookies opts,
       visited = {},
       queue = [],
       pages = [] \<rparr>"

definition no_options :: options where
  "no_options = \<lparr> opt_maxPages = None, opt_timeout = None, opt_concurrency = None,
                  opt_authHeader = None, opt_cookies = None \<rparr>"

subsection \<open>The environment\<close>

text \<open>
  What the selectors and the Markdown converter return on a response body:
  \<open>url_loc\<close> and \<open>sitemap_loc\<close> are the texts of \<open>$('url > loc')\<close> and
  \<open>$('sitemap > loc')\<close> in XML mode; \<open>h1_text\<close> is \<open>$('h1').first().text()\<close> and
  \<open>title_text\<close> is \<open>$('title').text()\<close> after the boilerplate elements are removed;
  \<open>markdown\<close> is what Turndown returns for the selected content region; \<open>hrefs\<close> are
  the \<open>href\<close> attributes of the remaining anchors, \<open>None\<close> for an anchor without one.
  \<open>xml_throws\<close> says that parsing the body in XML mode or reading the \<open>loc\<close> elements
  throws, \<open>html_throws\<close> that \<open>cheerio.load\<close>, a selector or Turndown throws on the
  body; both exceptions are caught by the \<open>try\<close> around the fetch.
\<close>

record body =
  url_loc :: "string list"
  sitemap_loc :: "string list"
  xml_throws :: bool
  h1_text :: string
  title_text :: string
  markdown :: string
  hrefs :: "string option list"
  html_throws :: bool

datatype response = Transport_error | Timed_out | Http nat body

record parsed_url =
  origin :: string
  pathname :: string

text \<open>
  The network answers a request at the time it is made. \<open>sitemap_get i url headers\<close> is
  the answer to the \<open>i\<close>-th request of \<open>tryFetchSitemap\<close> (they are made one after the
  other, with the timeout 3000): the same location may be requested twice there, and
  the two answers may differ. \<open>http_get url timeout headers\<close> is the answer to the
  request \<open>scrapePage\<close> makes for \<open>url\<close>: one scrape requests a page URL at most once
  (the test of \<open>visited\<close>), so the answers of any run are such a function. \<open>url_parse s\<close>
  is \<open>new URL(s)\<close>, \<open>None\<close> when it throws; \<open>url_resolve href base\<close> is
  \<open>new URL(href, base).href\<close>; \<open>sched\<close> gives the order in which the fetches of one
  batch complete.
\<close>

record world =
  sitemap_get :: "nat \<Rightarrow> string \<Rightarrow> (string \<times> string) list \<Rightarrow> response"
  http_get :: "string \<Rightarrow> int \<Rightarrow> (string \<times> string) list \<Rightarrow> response"
  url_parse :: "string \<Rightarrow> parsed_url option"
  url_resolve :: "string \<Rightarrow> string \<Rightarrow> string option"
  sched :: "string list \<Rightarrow> string list"

text \<open>\<open>axios.get\<close> rejects on a transport error, on a timeout and on a status outside 2xx.\<close>

definition axios_result :: "response \<Rightarrow> body option" where
  "axios_result r =
     (case r of
        Http status b \<Rightarrow> if 200 \<le> status \<and> status < 300 then Some b else None
      | _ \<Rightarrow> None)"

definition axios_get :: "world \<Rightarrow> string \<Rightarrow> int \<Rightarrow> (string \<times> string) list \<Rightarrow> body option" where
  "axios_get W u t hs = axios_result (http_get W u t hs)"

subsection \<open>getHeaders, lines 24-32\<close>

definition ascii_lower :: "char \<Rightarrow> char" where
  "ascii_lower c =
     (let n = (of_char c :: nat) in if 65 \<le> n \<and> n \<le> 90 then char_of (n + 32) else c)"

text \<open>\<open>s.replace(/^Authorization:\s*/i, '')\<close>.\<close>

definition strip_authorization :: "string \<Rightarrow> string" where
  "strip_authorization s =
     (if map ascii_lower (take 14 s) = ''authorization:''
      then dropWhile js_space (drop 14 s) else s)"

definition getHeaders :: "scraper \<Rightarrow> (string \<times> string) list" where
  "getHeaders st =
     [(''User-Agent'', ''Super-MCP-Bot/1.0'')]
     @ (case authHeader st of
          None \<Rightarrow> []
        | Some a \<Rightarrow> if a = [] then [] else [(''Authorization'', js_trim (strip_authorization a))])
     @ (case cookies st of
          None \<Rightarrow> []
        | Some c \<Rightarrow> if c = [] then [] else [(''Cookie'', c)])"

subsection \<open>Link resolution and the in-scope predicate, lines 208-252\<close>

definition excludePatterns :: "string list" where
  "excludePatterns =
     [''/blog/'', ''/changelog/'', ''.pdf'', ''.zip'', ''.tar.gz'', ''/downloads/'',
      ''/login'', ''/signup'', ''/api-reference/'']"

text \<open>\<open>shouldFollow(url, baseUrl, basePath)\<close>; \<open>url\<close> is \<open>None\<close> for \<open>null\<close>, \<open>basePath\<close> is unused.\<close>

definition shouldFollow :: "scraper \<Rightarrow> string option \<Rightarrow> string \<Rightarrow> bool" where
  "shouldFollow st u base =
     (case u of
        None \<Rightarrow> False
      | Some s \<Rightarrow>
          if s = [] then False
          else if \<not> prefix base s then False
          else if s \<in> visited st then False
          else list_all (\<lambda>p. \<not> js_includes s p) excludePatterns)"

definition resolveUrl :: "world \<Rightarrow> string \<Rightarrow> string \<Rightarrow> string \<Rightarrow> string option" where
  "resolveUrl W href base basePath =
     (if prefix ''http'' href then Some (strip_fragment href)
      else if prefix ''/'' href then Some (base @ strip_fragment href)
      else (case url_resolve W href (base @ basePath) of
              None \<Rightarrow> None
            | Some h \<Rightarrow> Some (strip_fragment h)))"

definition getBasePath :: "world \<Rightarrow> string \<Rightarrow> string" where
  "getBasePath W u =
     (case url_parse W u of
        None \<Rightarrow> []
      | Some p \<Rightarrow> js_join ''/'' (butlast (js_split_char CHR ''/'' (pathname p))))"

subsection \<open>scrapePage, lines 137-206\<close>

text \<open>
  The method is asynchronous with one suspension point, the \<open>await\<close> of the fetch. What
  runs before it is \<open>scrapePage_start\<close>: it returns whether a fetch was issued. What
  runs when the fetch settles is \<open>scrapePage_finish\<close>.
\<close>

definition scrapePage_start :: "string \<Rightarrow> scraper \<Rightarrow> bool \<times> scraper" where
  "scrapePage_start u st =
     (if u \<in> visited st then (False, st)
      else (True, st\<lparr>visited := insert u (visited st)\<rparr>))"

definition extract_page :: "string \<Rightarrow> body \<Rightarrow> page" where
  "extract_page u b =
     \<lparr> url = u,
       title = js_trim (if h1_text b \<noteq> [] then h1_text b
                        else if title_text b \<noteq> [] then title_text b else u),
       content = markdown b,
       wordCount = length (js_split_ws False (markdown b)) \<rparr>"

text \<open>The callback of \<open>$('a').each\<close>, lines 193-201, run over the anchors in order.\<close>

fun follow_links :: "world \<Rightarrow> string \<Rightarrow> string \<Rightarrow> string option list \<Rightarrow> scraper \<Rightarrow> scraper" where
  "follow_links W base basePath [] st = st"
| "follow_links W base basePath (h # hs) st =
     (case h of
        None \<Rightarrow> follow_links W base basePath hs st
      | Some href \<Rightarrow>
          if href = [] then follow_links W base basePath hs st
          else (let fullUrl = resolveUrl W href base basePath in
                if shouldFollow st fullUrl base
                then (case fullUrl of
                        None \<Rightarrow> follow_links W base basePath hs st
                      | Some f \<Rightarrow> follow_links W base basePath hs (st\<lparr>queue := queue st @ [f]\<rparr>))
                else follow_links W base basePath hs st))"

definition scrapePage_finish :: "world \<Rightarrow> string \<Rightarrow> string \<Rightarrow> string \<Rightarrow> scraper \<Rightarrow> scraper" where
  "scrapePage_finish W base basePath u st =
     (case axios_get W u (timeout st) (getHeaders st) of
        None \<Rightarrow> st
      | Some b \<Rightarrow>
          if html_throws b then st
          else (let st1 = st\<lparr>pages := pages st @ [extract_page u b]\<rparr> in
                if int (length (pages st1)) < maxPages st1
                then follow_links W base basePath (hrefs b) st1
                else st1))"

subsection \<open>The crawl loop, lines 101-106 and 122-127\<close>

text \<open>
  \<open>batch.map\<close> calls \<open>scrapePage\<close> on every member in order, each running up to its
  suspension point: \<open>start_batch\<close> returns the URLs whose fetch was issued.
  \<open>Promise.all\<close> then waits for all of them; they complete in the order \<open>sched\<close> gives.
\<close>

fun start_batch :: "string list \<Rightarrow> scraper \<Rightarrow> string list \<times> scraper" where
  "start_batch [] st = ([], st)"
| "start_batch (u # us) st =
     (case scrapePage_start u st of
        (issued, st1) \<Rightarrow>
          (case start_batch us st1 of
             (fl, st2) \<Rightarrow> (if issued then u # fl else fl, st2)))"

definition run_batch :: "world \<Rightarrow> string \<Rightarrow> string \<Rightarrow> string list \<Rightarrow> scraper \<Rightarrow> scraper" where
  "run_batch W base basePath batch st =
     (case start_batch batch st of
        (fl, st1) \<Rightarrow> fold (scrapePage_finish W base basePath) (sched W fl) st1)"

definition loop_body :: "world \<Rightarrow> string \<Rightarrow> string \<Rightarrow> scraper \<Rightarrow> scraper" where
  "loop_body W base basePath st =
     (case js_splice0 (queue st) (concurrency st) of
        (batch, rest) \<Rightarrow> run_batch W base basePath batch (st\<lparr>queue := rest\<rparr>))"

definition loop_cond :: "scraper \<Rightarrow> bool" where
  "loop_cond st = (length (queue st) > 0 \<and> int (length (pages st)) < maxPages st)"

partial_function (option) crawl_loop :: "world \<Rightarrow> string \<Rightarrow> string \<Rightarrow> scraper \<Rightarrow> scraper option" where
  "crawl_loop W base basePath st =
     (if loop_cond st then crawl_loop W base basePath (loop_body W base basePath st)
      else Some st)"

subsection \<open>tryFetchSitemap, lines 50-87\<close>

definition sitemap_candidates :: "string \<Rightarrow> string \<Rightarrow> string list" where
  "sitemap_candidates b orig =
     [b @ ''/sitemap.xml'', b @ ''/sitemap_index.xml'', b @ ''/sitemap.xml'',
      orig @ ''/sitemap.xml'', orig @ ''/sitemap_index.xml'']"

text \<open>The two \<open>each\<close> loops of lines 68-78: trimmed, non-empty \<open>loc\<close> texts.\<close>

definition sitemap_urls :: "body \<Rightarrow> string list" where
  "sitemap_urls b =
     filter (\<lambda>u. u \<noteq> []) (map js_trim (url_loc b))
     @ filter (\<lambda>u. u \<noteq> []) (map js_trim (sitemap_loc b))"

text \<open>The loop of lines 60-84; \<open>i\<close> counts the requests made so far.\<close>

fun try_candidates :: "world \<Rightarrow> scraper \<Rightarrow> nat \<Rightarrow> string list \<Rightarrow> string list" where
  "try_candidates W st i [] = []"
| "try_candidates W st i (c # cs) =
     (case axios_result (sitemap_get W i c (getHeaders st)) of
        None \<Rightarrow> try_candidates W st (Suc i) cs
      | Some b \<Rightarrow>
          if xml_throws b then try_candidates W st (Suc i) cs
          else (let urls = sitemap_urls b in
                if length urls > 0 then urls else try_candidates W st (Suc i) cs))"

definition tryFetchSitemap :: "world \<Rightarrow> scraper \<Rightarrow> string \<Rightarrow> error + string list" where
  "tryFetchSitemap W st b =
     (case url_parse W b of
        None \<Rightarrow> Inl TypeError
      | Some parsed \<Rightarrow> Inr (try_candidates W st 0 (sitemap_candidates b (origin parsed))))"

subsection \<open>scrapeFromSitemap, recursiveCrawl and scrape\<close>

text \<open>
  The methods return the result together with the updated object; \<open>None\<close> is a crawl
  that never returns, \<open>Inl\<close> a rejected promise.
\<close>

definition make_result :: "scraper \<Rightarrow> string option \<Rightarrow> scrape_result" where
  "make_result st b = \<lparr> pageCount = length (pages st), result_pages = pages st, baseUrl = b \<rparr>"

text \<open>Lines 90-91: the scope \<open>(baseUrl, basePath)\<close> taken from the first sitemap entry.\<close>

definition sitemap_scope :: "world \<Rightarrow> string list \<Rightarrow> error + string \<times> string" where
  "sitemap_scope W sitemapUrls =
     (case sitemapUrls of
        [] \<Rightarrow> Inr ([], [])
      | u # _ \<Rightarrow>
          if u = [] then Inr ([], [])
          else (case url_parse W u of
                  None \<Rightarrow> Inl TypeError
                | Some p \<Rightarrow> Inr (origin p, getBasePath W u)))"

definition scrapeFromSitemap ::
  "world \<Rightarrow> scraper \<Rightarrow> string list \<Rightarrow> (error + scrape_result \<times> scraper) option" where
  "scrapeFromSitemap W st sitemapUrls =
     (case sitemap_scope W sitemapUrls of
        Inl e \<Rightarrow> Some (Inl e)
      | Inr (base, basePath) \<Rightarrow>
          (let docUrls = filter (\<lambda>u. shouldFollow st (Some u) base) sitemapUrls;
               toScrape = js_slice0 docUrls (maxPages st)
           in case crawl_loop W base basePath (st\<lparr>queue := toScrape\<rparr>) of
                None \<Rightarrow> None
              | Some st' \<Rightarrow>
                  Some (Inr (make_result st'
                               (if base \<noteq> [] then Some base
                                else (case sitemapUrls of [] \<Rightarrow> None | u # _ \<Rightarrow> Some u)),
                             st'))))"

definition recursiveCrawl ::
  "world \<Rightarrow> scraper \<Rightarrow> string \<Rightarrow> (error + scrape_result \<times> scraper) option" where
  "recursiveCrawl W st startUrl =
     (let st1 = st\<lparr>queue := queue st @ [startUrl]\<rparr> in
      case url_parse W startUrl of
        None \<Rightarrow> Some (Inl TypeError)
      | Some parsed \<Rightarrow>
          (case crawl_loop W (origin parsed) (getBasePath W startUrl) st1 of
             None \<Rightarrow> None
           | Some st' \<Rightarrow> Some (Inr (make_result st' (Some startUrl), st'))))"

definition scrape ::
  "world \<Rightarrow> scraper \<Rightarrow> string \<Rightarrow> (error + scrape_result \<times> scraper) option" where
  "scrape W st startUrl =
     (let st0 = st\<lparr>visited := {}, queue := [], pages := []\<rparr> in
      case tryFetchSitemap W st0 startUrl of
        Inl e \<Rightarrow> Some (Inl e)
      | Inr sitemapPages \<Rightarrow>
          if length sitemapPages > 0 then scrapeFromSitemap W st0 sitemapPages
          else recursiveCrawl W st0 startUrl)"

subsection \<open>Auxiliary notions for the statements\<close>

text \<open>
  A failed fetch, as the specification defines it (section 4.4 and section 5): a
  transport failure, a timeout or a status outside 2xx.
\<close>

definition fetch_failed :: "response \<Rightarrow> bool" where
  "fetch_failed r =
     (case r of
        Transport_error \<Rightarrow> True
      | Timed_out \<Rightarrow> True
      | Http status b \<Rightarrow> status < 200 \<or> 299 < status)"

text \<open>
  The request for the page \<open>u\<close> under the configuration of \<open>st\<close> is answered with a
  2xx status and a body from which a page can be extracted.
\<close>

definition page_collected :: "world \<Rightarrow> scraper \<Rightarrow> string \<Rightarrow> bool" where
  "page_collected W st u =
     (case http_get W u (timeout st) (getHeaders st) of
        Http status b \<Rightarrow> 200 \<le> status \<and> status \<le> 299 \<and> \<not> html_throws b
      | _ \<Rightarrow> False)"

text \<open>
  The completion order is a permutation of the fetches that were issued: every fetch
  settles exactly once (each carries its own timeout).
\<close>

definition fair_sched :: "world \<Rightarrow> bool" where
  "fair_sched W = (\<forall>xs. mset (sched W xs) = mset xs)"

definition same_config :: "scraper \<Rightarrow> scraper \<Rightarrow> bool" where
  "same_config s t = (maxPages s = maxPages t \<and> timeout s = timeout t \<and> concurrency s = concurrency t
     \<and> authHeader s = authHeader t \<and> cookies s = cookies t)"

text \<open>The URLs of the next batch whose fetch is issued.\<close>

definition batch_issued :: "scraper \<Rightarrow> string list" where
  "batch_issued st = fst (start_batch (take (nat (concurrency st)) (queue st)) st)"


subsection \<open>The sitemap resolver and the word count as the specification words them\<close>

text \<open>
  The specification lists four candidate locations, tried in order, one request each.
  The result is the URL list of the first candidate whose fetch succeeds and whose
  body parses to a non-empty list of \<open>loc\<close> values; a fetch error, a parse failure
  and an empty list go on to the next candidate; the result is empty when all are
  exhausted. \<open>spec_probe W st i c\<close> is what the \<open>i\<close>-th request, made for \<open>c\<close>, yields.
\<close>

definition spec_sitemap_candidates :: "string \<Rightarrow> string \<Rightarrow> string list" where
  "spec_sitemap_candidates b orig =
     [b @ ''/sitemap.xml'', b @ ''/sitemap_index.xml'',
      orig @ ''/sitemap.xml'', orig @ ''/sitemap_index.xml'']"

definition spec_probe :: "world \<Rightarrow> scraper \<Rightarrow> nat \<Rightarrow> string \<Rightarrow> string list" where
  "spec_probe W st i c =
     (let r = sitemap_get W i c (getHeaders st) in
      if fetch_failed r then []
      else (case r of
              Http status b \<Rightarrow> if xml_throws b then [] else sitemap_urls b
            | _ \<Rightarrow> []))"

definition spec_resolve_sitemap :: "world \<Rightarrow> scraper \<Rightarrow> string list \<Rightarrow> string list" where
  "spec_resolve_sitemap W st cands =
     (case find (\<lambda>(i, c). spec_probe W st i c \<noteq> []) (enumerate 0 cands) of
        None \<Rightarrow> []
      | Some (i, c) \<Rightarrow> spec_probe W st i c)"

text \<open>
  The number of white-space-delimited tokens of a string: the maximal runs of
  characters that are not white space. \<open>in_token\<close> says that the previous character
  belongs to a token.
\<close>

fun spec_token_count :: "bool \<Rightarrow> string \<Rightarrow> nat" where
  "spec_token_count in_token [] = 0"
| "spec_token_count in_token (c # cs) =
     (if js_space c then spec_token_count False cs
      else (if in_token then 0 else 1) + spec_token_count True cs)"

subsection \<open>Example sites\<close>

text \<open>
  Concrete sites on which the crawl is evaluated. \<open>example_parse\<close> is \<open>new URL\<close> on
  the URLs used here, \<open>scheme://host/path\<close> in lower case, without port, user
  information or dot segments: the origin is \<open>scheme://host\<close> for the special schemes
  with a tuple origin and \<open>null\<close> for any other scheme, the path name ends before a
  query or fragment, and a string without \<open>://\<close> does not parse. The pages of the
  example sites have root-relative links only, so \<open>url_resolve\<close> is never called on
  them.
\<close>

declare crawl_loop.simps [code]

definition html_page :: "string \<Rightarrow> string option list \<Rightarrow> body" where
  "html_page md hs =
     \<lparr> url_loc = [], sitemap_loc = [], xml_throws = False,
       h1_text = [], title_text = [], markdown = md, hrefs = hs, html_throws = False \<rparr>"

definition sitemap_xml :: "string list \<Rightarrow> string list \<Rightarrow> body" where
  "sitemap_xml ls ss =
     \<lparr> url_loc = ls, sitemap_loc = ss, xml_throws = False,
       h1_text = [], title_text = [], markdown = [], hrefs = [], html_throws = False \<rparr>"

definition example_parse :: "string \<Rightarrow> parsed_url option" where
  "example_parse u =
     (case js_split_char CHR ''/'' (takeWhile (\<lambda>c. c \<noteq> CHR ''?'' \<and> c \<noteq> CHR ''#'') u) of
        scheme # [] # host # path \<Rightarrow>
          if host = [] then None
          else if length scheme < 2 then None
          else if last scheme \<noteq> CHR '':'' then None
          else Some \<lparr> origin = (if scheme \<in> {''http:'', ''https:'', ''ftp:'', ''ws:'', ''wss:''}
                                 then scheme @ ''//'' @ host else ''null''),
                      pathname = ''/'' @ js_join ''/'' path \<rparr>
      | _ \<Rightarrow> None)"

definition example_world ::
  "(nat \<Rightarrow> string \<Rightarrow> response) \<Rightarrow> (string \<Rightarrow> response) \<Rightarrow> (string list \<Rightarrow> string list) \<Rightarrow> world" where
  "example_world probes net order =
     \<lparr> sitemap_get = (\<lambda>i u hs. probes i u), http_get = (\<lambda>u t hs. net u),
       url_parse = example_parse, url_resolve = (\<lambda>href b. None), sched = order \<rparr>"

definition not_found :: response where
  "not_found = Http 404 (html_page [] [])"

text \<open>
  The example of the specification: no sitemap, and the page at
  \<open>https://example.com/docs/a\<close> links to \<open>/docs/b\<close> and \<open>/blog/post\<close>.
\<close>

definition docs_site :: world where
  "docs_site = example_world
     (\<lambda>i u. not_found)
     (\<lambda>u. if u = ''https://example.com/docs/a''
               then Http 200 (html_page ''# A'' [Some ''/docs/b'', Some ''/blog/post''])
            else if u = ''https://example.com/docs/b'' \<or> u = ''https://example.com/blog/post''
               then Http 200 (html_page ''# B'' [])
            else not_found)
     (\<lambda>xs. xs)"

text \<open>A sitemap that lists the page \<open>/a\<close> only; \<open>/a\<close> links to \<open>/b\<close>.\<close>

definition sitemap_site :: world where
  "sitemap_site = example_world
     (\<lambda>i u. if u = ''https://x.io/sitemap.xml''
               then Http 200 (sitemap_xml [''https://x.io/a''] [])
             else not_found)
     (\<lambda>u. if u = ''https://x.io/a'' then Http 200 (html_page ''A'' [Some ''/b''])
            else if u = ''https://x.io/b'' then Http 200 (html_page ''B'' [])
            else not_found)
     (\<lambda>xs. xs)"

text \<open>
  No sitemap; the start page \<open>/a\<close> links to \<open>/b\<close>, \<open>/c\<close> and \<open>/b\<close> again; the fetches of
  a batch complete in reverse order.
\<close>

definition fanout_site :: world where
  "fanout_site = example_world
     (\<lambda>i u. not_found)
     (\<lambda>u. if u = ''https://x.io/a''
              then Http 200 (html_page ''A'' [Some ''/b'', Some ''/c'', Some ''/b''])
            else if u = ''https://x.io/b'' \<or> u = ''https://x.io/c''
              then Http 200 (html_page ''B'' [])
            else not_found)
     rev"




text \<open>
  The first request for \<open>https://x.io/docs/sitemap.xml\<close> is answered with the status
  503, every later one with a sitemap; \<open>https://x.io/sitemap.xml\<close> is a sitemap too.
\<close>

definition flaky_site :: world where
  "flaky_site = example_world
     (\<lambda>i u. if u = ''https://x.io/docs/sitemap.xml''
               then (if i = 0 then Http 503 (html_page [] [])
                     else Http 200 (sitemap_xml [''https://x.io/docs/late''] []))
             else if u = ''https://x.io/sitemap.xml''
               then Http 200 (sitemap_xml [''https://x.io/root''] [])
             else not_found)
     (\<lambda>u. not_found)
     (\<lambda>xs. xs)"

definition budget :: "int \<Rightarrow> scraper" where
  "budget n = new_scraper (no_options\<lparr>opt_maxPages := Some n\<rparr>)"

section \<open>Frame and effect of the parts of scrapePage\<close>

lemma axios_get_None_iff:
  "axios_get W u t hs = None \<longleftrightarrow>
     http_get W u t hs = Transport_error \<or> http_get W u t hs = Timed_out
     \<or> (\<exists>status b. http_get W u t hs = Http status b \<and> (status < 200 \<or> 300 \<le> status))"
  by (cases "http_get W u t hs") (auto simp: axios_get_def axios_result_def)

lemma page_collected_iff:
  "page_collected W st u \<longleftrightarrow>
     (\<exists>b. axios_get W u (timeout st) (getHeaders st) = Some b \<and> \<not> html_throws b)"
  by (cases "http_get W u (timeout st) (getHeaders st)")
     (auto simp: page_collected_def axios_get_def axios_result_def)



lemma getHeaders_cong: "authHeader s = authHeader t \<Longrightarrow> cookies s = cookies t \<Longrightarrow> getHeaders s = getHeaders t"
  by (simp add: getHeaders_def)

lemma shouldFollow_iff:
  "shouldFollow st (Some u) b \<longleftrightarrow>
     u \<noteq> [] \<and> prefix b u \<and> u \<notin> visited st \<and> (\<forall>p\<in>set excludePatterns. \<not> js_includes u p)"
  by (simp add: shouldFollow_def list_all_iff)

lemma shouldFollow_None: "\<not> shouldFollow st None b"
  by (simp add: shouldFollow_def)

lemma shouldFollow_visited: "visited s = visited t \<Longrightarrow> shouldFollow s u b = shouldFollow t u b"
  by (cases u) (simp_all add: shouldFollow_def)

lemma follow_links_frame:
  "visited (follow_links W b p hs st) = visited st \<and> pages (follow_links W b p hs st) = pages st
   \<and> same_config (follow_links W b p hs st) st"
  by (induction W b p hs st rule: follow_links.induct)
     (auto simp: same_config_def Let_def split: option.splits)

lemma follow_links_queue:
  "\<exists>new. queue (follow_links W b p hs st) = queue st @ new
      \<and> (\<forall>u\<in>set new. shouldFollow st (Some u) b)"
proof (induction hs arbitrary: st)
  case Nil
  then show ?case by simp
next
  case (Cons h hs)
  show ?case
  proof (cases "\<exists>href f. h = Some href \<and> href \<noteq> [] \<and> resolveUrl W href b p = Some f
                   \<and> shouldFollow st (Some f) b")
    case False
    then have "follow_links W b p (h # hs) st = follow_links W b p hs st"
      by (auto simp: Let_def shouldFollow_None split: option.splits)
    then show ?thesis using Cons[of st] by simp
  next
    case True
    then obtain href f where h: "h = Some href" "href \<noteq> []" "resolveUrl W href b p = Some f"
      and sf: "shouldFollow st (Some f) b" by blast
    let ?s1 = "st\<lparr>queue := queue st @ [f]\<rparr>"
    obtain new where new: "queue (follow_links W b p hs ?s1) = queue ?s1 @ new"
        "\<forall>u\<in>set new. shouldFollow ?s1 (Some u) b"
      using Cons[of ?s1] by blast
    have "shouldFollow ?s1 (Some v) b = shouldFollow st (Some v) b" for v
      by (rule shouldFollow_visited) simp
    then have "\<forall>u\<in>set (f # new). shouldFollow st (Some u) b"
      using new(2) sf by simp
    moreover have "queue (follow_links W b p (h # hs) st) = queue st @ (f # new)"
      using h sf new(1) by simp
    ultimately show ?thesis by blast
  qed
qed

lemma finish_frame:
  "visited (scrapePage_finish W b p u st) = visited st \<and> same_config (scrapePage_finish W b p u st) st"
  using follow_links_frame[of W b p _ "st\<lparr>pages := pages st @ [extract_page u x]\<rparr>" for x]
  by (auto simp: scrapePage_finish_def Let_def same_config_def split: option.splits)

lemma finish_failed: "\<not> page_collected W st u \<Longrightarrow> scrapePage_finish W b p u st = st"
  by (auto simp: scrapePage_finish_def page_collected_iff split: option.splits)

lemma finish_pages:
  "map url (pages (scrapePage_finish W b p u st)) = map url (pages st) @ (if page_collected W st u then [u] else [])"
  by (auto simp: scrapePage_finish_def page_collected_iff Let_def follow_links_frame extract_page_def
      split: option.splits)

lemma finish_queue:
  "\<exists>new. queue (scrapePage_finish W b p u st) = queue st @ new
      \<and> (\<forall>v\<in>set new. shouldFollow st (Some v) b)"
proof (cases "axios_get W u (timeout st) (getHeaders st)")
  case None
  then show ?thesis by (simp add: scrapePage_finish_def)
next
  case (Some x)
  let ?s1 = "st\<lparr>pages := pages st @ [extract_page u x]\<rparr>"
  from follow_links_queue[of W b p "hrefs x" ?s1]
  obtain new where "queue (follow_links W b p (hrefs x) ?s1) = queue st @ new"
    "\<forall>v\<in>set new. shouldFollow ?s1 (Some v) b" by auto
  moreover have "shouldFollow ?s1 (Some v) b = shouldFollow st (Some v) b" for v
    by (rule shouldFollow_visited) simp
  ultimately show ?thesis using Some
    by (auto simp: scrapePage_finish_def Let_def)
qed

lemma page_collected_cong: "same_config s t \<Longrightarrow> page_collected W s = page_collected W t"
  by (auto simp: page_collected_def same_config_def getHeaders_cong[of s t] intro!: ext)

lemma same_config_trans: "same_config a b \<Longrightarrow> same_config b c \<Longrightarrow> same_config a c"
  by (simp add: same_config_def)

lemma same_config_refl: "same_config a a"
  by (simp add: same_config_def)

lemma fold_finish_frame:
  "visited (fold (scrapePage_finish W b p) ys st) = visited st
   \<and> same_config (fold (scrapePage_finish W b p) ys st) st"
proof (induction ys arbitrary: st)
  case Nil
  then show ?case by (simp add: same_config_refl)
next
  case (Cons y ys)
  show ?case using Cons[of "scrapePage_finish W b p y st"] finish_frame[of W b p y st]
    by (auto intro: same_config_trans)
qed

lemma fold_finish_pages:
  "map url (pages (fold (scrapePage_finish W b p) ys st)) = map url (pages st) @ filter (page_collected W st) ys"
proof (induction ys arbitrary: st)
  case Nil
  then show ?case by simp
next
  case (Cons y ys)
  have "page_collected W (scrapePage_finish W b p y st) = page_collected W st"
    using finish_frame[of W b p y st] by (simp add: page_collected_cong)
  then show ?case using Cons[of "scrapePage_finish W b p y st"]
    by (simp add: finish_pages)
qed

lemma fold_finish_idle:
  "filter (page_collected W st) ys = [] \<Longrightarrow> fold (scrapePage_finish W b p) ys st = st"
  by (induction ys) (auto simp: finish_failed split: if_splits)

lemma fold_finish_queue:
  "\<exists>new. queue (fold (scrapePage_finish W b p) ys st) = queue st @ new
      \<and> (\<forall>v\<in>set new. shouldFollow st (Some v) b)"
proof (induction ys arbitrary: st)
  case Nil
  then show ?case by simp
next
  case (Cons y ys)
  let ?s1 = "scrapePage_finish W b p y st"
  obtain n1 where n1: "queue ?s1 = queue st @ n1" "\<forall>v\<in>set n1. shouldFollow st (Some v) b"
    using finish_queue[of W b p y st] by auto
  obtain n2 where n2: "queue (fold (scrapePage_finish W b p) ys ?s1) = queue ?s1 @ n2"
    "\<forall>v\<in>set n2. shouldFollow ?s1 (Some v) b"
    using Cons[of ?s1] by auto
  have "shouldFollow ?s1 = shouldFollow st"
    using finish_frame[of W b p y st] by (auto intro!: ext shouldFollow_visited)
  with n1 n2 have "queue (fold (scrapePage_finish W b p) (y # ys) st) = queue st @ (n1 @ n2)
     \<and> (\<forall>v\<in>set (n1 @ n2). shouldFollow st (Some v) b)"
    by auto
  then show ?case by blast
qed

section \<open>Batches and the crawl loop\<close>

lemma start_batch_Cons:
  "start_batch (u # us) st =
     (if u \<in> visited st then start_batch us st
      else (u # fst (start_batch us (st\<lparr>visited := insert u (visited st)\<rparr>)),
            snd (start_batch us (st\<lparr>visited := insert u (visited st)\<rparr>))))"
  by (simp add: scrapePage_start_def split: prod.splits)

lemma start_batch_state:
  "snd (start_batch us st) = st\<lparr>visited := visited st \<union> set us\<rparr>"
proof (induction us arbitrary: st)
  case Nil
  then show ?case by simp
next
  case (Cons u us)
  show ?case
  proof (cases "u \<in> visited st")
    case True
    then have "visited st \<union> set (u # us) = visited st \<union> set us" by auto
    then show ?thesis using Cons[of st] True
      by (simp add: start_batch_Cons del: start_batch.simps)
  next
    case False
    then show ?thesis using Cons[of "st\<lparr>visited := insert u (visited st)\<rparr>"]
      by (simp add: start_batch_Cons del: start_batch.simps)
  qed
qed

lemma start_batch_issued:
  "distinct (fst (start_batch us st)) \<and> set (fst (start_batch us st)) = set us - visited st
   \<and> length (fst (start_batch us st)) \<le> length us"
proof (induction us arbitrary: st)
  case Nil
  then show ?case by simp
next
  case (Cons u us)
  show ?case
  proof (cases "u \<in> visited st")
    case True
    have "set us - visited st = set (u # us) - visited st" using True by auto
    then show ?thesis using Cons[of st] True
      by (simp add: start_batch_Cons del: start_batch.simps)
  next
    case False
    let ?s1 = "st\<lparr>visited := insert u (visited st)\<rparr>"
    from Cons[of ?s1] have d: "distinct (fst (start_batch us ?s1))"
      and s: "set (fst (start_batch us ?s1)) = set us - insert u (visited st)"
      and l: "length (fst (start_batch us ?s1)) \<le> length us"
      by simp_all
    have "insert u (set us - insert u (visited st)) = set (u # us) - visited st"
      using False by auto
    then show ?thesis using False d s l
      by (simp add: start_batch_Cons del: start_batch.simps)
  qed
qed

lemma start_batch_fst_visited:
  "visited s = visited t \<Longrightarrow> fst (start_batch us s) = fst (start_batch us t)"
proof (induction us arbitrary: s t)
  case Nil
  then show ?case by simp
next
  case (Cons u us)
  have "fst (start_batch us (s\<lparr>visited := insert u (visited s)\<rparr>))
      = fst (start_batch us (t\<lparr>visited := insert u (visited t)\<rparr>))"
    by (rule Cons.IH) (simp add: Cons.prems)
  moreover have "fst (start_batch us s) = fst (start_batch us t)"
    by (rule Cons.IH) (rule Cons.prems)
  ultimately show ?case using Cons.prems
    by (auto simp: scrapePage_start_def split: prod.splits)
qed

lemma loop_body_unfold:
  "loop_body W b p st =
     fold (scrapePage_finish W b p) (sched W (batch_issued st))
       (st\<lparr>queue := drop (nat (concurrency st)) (queue st),
           visited := visited st \<union> set (take (nat (concurrency st)) (queue st))\<rparr>)"
proof -
  let ?s0 = "st\<lparr>queue := drop (nat (concurrency st)) (queue st)\<rparr>"
  let ?batch = "take (nat (concurrency st)) (queue st)"
  have "start_batch ?batch ?s0 = (fst (start_batch ?batch ?s0), snd (start_batch ?batch ?s0))"
    by simp
  moreover have "fst (start_batch ?batch ?s0) = batch_issued st"
    unfolding batch_issued_def by (rule start_batch_fst_visited) simp
  moreover have "snd (start_batch ?batch ?s0) = ?s0\<lparr>visited := visited ?s0 \<union> set ?batch\<rparr>"
    by (rule start_batch_state)
  ultimately have "start_batch ?batch ?s0
      = (batch_issued st, ?s0\<lparr>visited := visited st \<union> set ?batch\<rparr>)"
    by simp
  then show ?thesis
    by (simp add: loop_body_def js_splice0_def run_batch_def)
qed

lemma batch_issued_props:
  "distinct (batch_issued st)
   \<and> set (batch_issued st) = set (take (nat (concurrency st)) (queue st)) - visited st
   \<and> int (length (batch_issued st)) \<le> max 0 (concurrency st)"
proof -
  let ?batch = "take (nat (concurrency st)) (queue st)"
  have "length (batch_issued st) \<le> length ?batch"
    using start_batch_issued[of ?batch st] by (simp add: batch_issued_def)
  also have "\<dots> \<le> nat (concurrency st)" by simp
  finally have "int (length (batch_issued st)) \<le> max 0 (concurrency st)" by linarith
  then show ?thesis
    using start_batch_issued[of ?batch st] by (simp add: batch_issued_def)
qed

lemma loop_body_frame:
  "same_config (loop_body W b p st) st
   \<and> visited (loop_body W b p st) = visited st \<union> set (take (nat (concurrency st)) (queue st))"
  using fold_finish_frame[of W b p "sched W (batch_issued st)"
      "st\<lparr>queue := drop (nat (concurrency st)) (queue st),
           visited := visited st \<union> set (take (nat (concurrency st)) (queue st))\<rparr>"]
  by (simp add: loop_body_unfold same_config_def)

lemma page_collected_frame [simp]:
  "page_collected W (st\<lparr>queue := q, visited := v\<rparr>) = page_collected W st"
  by (rule page_collected_cong) (simp add: same_config_def)

lemma loop_body_pages:
  "map url (pages (loop_body W b p st))
     = map url (pages st) @ filter (page_collected W st) (sched W (batch_issued st))"
  by (simp add: loop_body_unfold fold_finish_pages)

lemma loop_body_idle:
  "filter (page_collected W st) (sched W (batch_issued st)) = [] \<Longrightarrow>
   loop_body W b p st =
     st\<lparr>queue := drop (nat (concurrency st)) (queue st),
        visited := visited st \<union> set (take (nat (concurrency st)) (queue st))\<rparr>"
  by (simp add: loop_body_unfold fold_finish_idle)

lemma loop_body_queue:
  "\<exists>new. queue (loop_body W b p st) = drop (nat (concurrency st)) (queue st) @ new
      \<and> (\<forall>v\<in>set new. v \<noteq> [] \<and> prefix b v \<and> v \<notin> visited st
             \<and> (\<forall>pat\<in>set excludePatterns. \<not> js_includes v pat))"
proof -
  let ?s1 = "st\<lparr>queue := drop (nat (concurrency st)) (queue st),
           visited := visited st \<union> set (take (nat (concurrency st)) (queue st))\<rparr>"
  obtain new where "queue (fold (scrapePage_finish W b p) (sched W (batch_issued st)) ?s1) = queue ?s1 @ new"
    "\<forall>v\<in>set new. shouldFollow ?s1 (Some v) b"
    using fold_finish_queue[of W b p "sched W (batch_issued st)" ?s1] by blast
  then show ?thesis
    by (auto simp: loop_body_unfold shouldFollow_iff)
qed

text \<open>An invariant of the loop body holds of every state the loop returns.\<close>

lemma crawl_loop_invariant:
  assumes "crawl_loop W b p st = Some st'"
    and "I st"
    and "\<And>s. I s \<Longrightarrow> loop_cond s \<Longrightarrow> I (loop_body W b p s)"
  shows "I st' \<and> \<not> loop_cond st'"
proof -
  have "(\<forall>x. I x \<longrightarrow> loop_cond x \<longrightarrow> I (loop_body W b p x)) \<longrightarrow> I st \<longrightarrow> I st' \<and> \<not> loop_cond st'"
    by (rule crawl_loop.raw_induct[where P = "\<lambda>W' b' p' s s'.
          (\<forall>x. I x \<longrightarrow> loop_cond x \<longrightarrow> I (loop_body W' b' p' x)) \<longrightarrow> I s \<longrightarrow> I s' \<and> \<not> loop_cond s'",
          OF _ assms(1)])
       (auto split: if_splits)
  with assms(2,3) show ?thesis by blast
qed


section \<open>From scrape to the crawl loop\<close>

lemma try_candidates_headers:
  "getHeaders s = getHeaders t \<Longrightarrow> try_candidates W s i cs = try_candidates W t i cs"
  by (induction cs arbitrary: i) (simp_all add: Let_def split: option.splits)

lemma tryFetchSitemap_reset:
  "tryFetchSitemap W (st\<lparr>visited := v, queue := q, pages := ps\<rparr>) u = tryFetchSitemap W st u"
proof -
  have "getHeaders (st\<lparr>visited := v, queue := q, pages := ps\<rparr>) = getHeaders st"
    by (simp add: getHeaders_def)
  then have "try_candidates W (st\<lparr>visited := v, queue := q, pages := ps\<rparr>) i cs = try_candidates W st i cs" for i cs
    by (rule try_candidates_headers)
  then show ?thesis
    by (simp add: tryFetchSitemap_def split: option.splits)
qed

lemma recursiveCrawl_loop:
  assumes "recursiveCrawl W s0 u = Some (Inr (r, st'))"
  shows "\<exists>parsed. url_parse W u = Some parsed
           \<and> crawl_loop W (origin parsed) (getBasePath W u) (s0\<lparr>queue := queue s0 @ [u]\<rparr>) = Some st'
           \<and> r = make_result st' (Some u)"
  using assms by (auto simp: recursiveCrawl_def Let_def split: option.splits)

lemma scrapeFromSitemap_loop:
  assumes "scrapeFromSitemap W s0 urls = Some (Inr (r, st'))"
  shows "\<exists>base bp q b0. crawl_loop W base bp (s0\<lparr>queue := q\<rparr>) = Some st' \<and> r = make_result st' b0"
  using assms
  by (auto simp: scrapeFromSitemap_def Let_def split: sum.splits prod.splits option.splits)

lemma scrape_modes:
  assumes "scrape W st u = Some (Inr (r, st'))"
  shows "\<exists>s0 urls. visited s0 = {} \<and> queue s0 = [] \<and> pages s0 = [] \<and> same_config s0 st
           \<and> tryFetchSitemap W st u = Inr urls
           \<and> (if urls \<noteq> [] then scrapeFromSitemap W s0 urls else recursiveCrawl W s0 u)
               = Some (Inr (r, st'))"
proof -
  let ?s0 = "st\<lparr>visited := {}, queue := [], pages := []\<rparr>"
  obtain urls where urls: "tryFetchSitemap W st u = Inr urls"
    using assms by (cases "tryFetchSitemap W st u") (simp_all add: scrape_def tryFetchSitemap_reset)
  then have "(if urls \<noteq> [] then scrapeFromSitemap W ?s0 urls else recursiveCrawl W ?s0 u)
               = Some (Inr (r, st'))"
    using assms by (simp add: scrape_def Let_def tryFetchSitemap_reset)
  moreover have "visited ?s0 = {} \<and> queue ?s0 = [] \<and> pages ?s0 = [] \<and> same_config ?s0 st"
    by (simp add: same_config_def)
  ultimately show ?thesis using urls by blast
qed

lemma scrape_via_loop:
  assumes "scrape W st u = Some (Inr (r, st'))"
  shows "\<exists>base bp s0. crawl_loop W base bp s0 = Some st'
           \<and> visited s0 = {} \<and> pages s0 = [] \<and> same_config s0 st
           \<and> result_pages r = pages st' \<and> pageCount r = length (pages st')"
proof -
  obtain s0 urls where s0: "visited s0 = {}" "queue s0 = []" "pages s0 = []" "same_config s0 st"
    and m: "(if urls \<noteq> [] then scrapeFromSitemap W s0 urls else recursiveCrawl W s0 u)
               = Some (Inr (r, st'))"
    using scrape_modes[OF assms] by blast
  have "\<exists>base bp q b0. crawl_loop W base bp (s0\<lparr>queue := q\<rparr>) = Some st' \<and> r = make_result st' b0"
  proof (cases "urls \<noteq> []")
    case True
    with m show ?thesis using scrapeFromSitemap_loop[of W s0 urls r st'] by simp
  next
    case False
    with m show ?thesis using recursiveCrawl_loop[of W s0 u r st'] by auto
  qed
  then obtain base bp q b0 where "crawl_loop W base bp (s0\<lparr>queue := q\<rparr>) = Some st'"
    "r = make_result st' b0" by blast
  then show ?thesis using s0
    by (intro exI[of _ base] exI[of _ bp] exI[of _ "s0\<lparr>queue := q\<rparr>"])
      (simp add: same_config_def make_result_def)
qed

lemma scrape_recursive:
  assumes "tryFetchSitemap W st u = Inr []"
    and "scrape W st u = Some (Inr (r, st'))"
    and "url_parse W u = Some parsed"
  shows "\<exists>s0. crawl_loop W (origin parsed) (getBasePath W u) s0 = Some st'
           \<and> visited s0 = {} \<and> pages s0 = [] \<and> queue s0 = [u] \<and> same_config s0 st
           \<and> result_pages r = pages st'"
proof -
  obtain s0 urls where s0: "visited s0 = {}" "queue s0 = []" "pages s0 = []" "same_config s0 st"
    and t: "tryFetchSitemap W st u = Inr urls"
    and m: "(if urls \<noteq> [] then scrapeFromSitemap W s0 urls else recursiveCrawl W s0 u)
               = Some (Inr (r, st'))"
    using scrape_modes[OF assms(2)] by blast
  from t assms(1) m have "recursiveCrawl W s0 u = Some (Inr (r, st'))" by simp
  from recursiveCrawl_loop[OF this] assms(3)
  have "crawl_loop W (origin parsed) (getBasePath W u) (s0\<lparr>queue := queue s0 @ [u]\<rparr>) = Some st'"
    "r = make_result st' (Some u)" by auto
  then show ?thesis using s0
    by (intro exI[of _ "s0\<lparr>queue := queue s0 @ [u]\<rparr>"]) (simp add: same_config_def make_result_def)
qed

lemma fair_sched_props:
  assumes "fair_sched W"
  shows "length (sched W xs) = length xs" "set (sched W xs) = set xs" "distinct (sched W xs) = distinct xs"
proof -
  have m: "mset (sched W xs) = mset xs" using assms by (simp add: fair_sched_def)
  show "length (sched W xs) = length xs" using m by (rule mset_eq_length)
  show "set (sched W xs) = set xs" using m by (rule mset_eq_setD)
  show "distinct (sched W xs) = distinct xs" using m by (rule mset_eq_imp_distinct_iff)
qed





section \<open>The sitemap loop as a search\<close>

text \<open>
  The loop of \<open>tryFetchSitemap\<close> returns the first non-empty probe of its own
  candidate list. On a network that answers every request for a location alike, the
  repeated third candidate changes nothing and the result is the one of the
  specification's four candidates.
\<close>

lemma try_candidates_find:
  "try_candidates W st i cs =
     (case find (\<lambda>(j, c). spec_probe W st j c \<noteq> []) (enumerate i cs) of
        None \<Rightarrow> []
      | Some (j, c) \<Rightarrow> spec_probe W st j c)"
proof (induction cs arbitrary: i)
  case Nil
  then show ?case by simp
next
  case (Cons c cs)
  have "spec_probe W st i c =
      (case axios_result (sitemap_get W i c (getHeaders st)) of
         None \<Rightarrow> []
       | Some b \<Rightarrow> if xml_throws b then [] else sitemap_urls b)"
    by (cases "sitemap_get W i c (getHeaders st)")
       (auto simp: spec_probe_def fetch_failed_def axios_result_def Let_def)
  then show ?case using Cons[of "Suc i"]
    by (auto simp: Let_def split: option.splits)
qed

lemma sitemap_resolver_on_stable_network:
  assumes "\<forall>i u h. sitemap_get W i u h = sitemap_get W 0 u h"
    and "url_parse W b = Some parsed"
  shows "tryFetchSitemap W st b
           = Inr (spec_resolve_sitemap W st (spec_sitemap_candidates b (origin parsed)))"
proof -
  have "spec_probe W st i c = spec_probe W st 0 c" for i c
    using assms(1)[rule_format, of i c "getHeaders st"] by (simp add: spec_probe_def)
  then have p: "spec_probe W st (Suc i) c = spec_probe W st 0 c" for i c
    by blast
  show ?thesis using assms(2)
    by (simp add: tryFetchSitemap_def try_candidates_find spec_resolve_sitemap_def
        sitemap_candidates_def spec_sitemap_candidates_def p)
qed

section \<open>Pieces of a split and tokens\<close>

lemma js_split_ws_nonempty: "js_split_ws r s \<noteq> []"
  by (induction s arbitrary: r) (auto split: list.splits)

lemma js_split_ws_length_Cons:
  "length (js_split_ws r (c # cs)) =
     (if js_space c then (if r then 0 else 1) + length (js_split_ws True cs)
      else length (js_split_ws False cs))"
  using js_split_ws_nonempty[of False cs] by (cases "js_split_ws False cs") auto

lemma split_ws_vs_tokens:
  "length (js_split_ws True s) = spec_token_count False s + (if s = [] \<or> js_space (last s) then 1 else 0)"
  "length (js_split_ws False s) = spec_token_count True s + 1 + (if s \<noteq> [] \<and> js_space (last s) then 1 else 0)"
  by (induction s) (auto simp: js_split_ws_length_Cons simp del: js_split_ws.simps(2))

lemma token_count_start:
  "spec_token_count False s = spec_token_count True s + (if s \<noteq> [] \<and> \<not> js_space (hd s) then 1 else 0)"
  by (cases s) auto

lemma wordCount_trimmed:
  assumes "s \<noteq> []" "\<not> js_space (hd s)" "\<not> js_space (last s)"
  shows "length (js_split_ws False s) = spec_token_count False s"
  using assms by (simp add: split_ws_vs_tokens(2) token_count_start[of s])

section \<open>The example schedulers are permutations\<close>

lemma fair_id: "fair_sched (example_world probes net (\<lambda>xs. xs))"
  by (simp add: fair_sched_def example_world_def)

lemma fair_rev: "fair_sched (example_world probes net rev)"
  by (simp add: fair_sched_def example_world_def)

section \<open>Configuration defaults\<close>

text \<open>
  C10. The constructor applies the defaults to every falsy option value: constructing
  the scraper with \<open>maxPages: 0\<close>, \<open>timeout: 0\<close> or \<open>concurrency: 0\<close> gives 200, 5000 and
  5, as leaving the option out does, so that no options object yields a scraper whose
  page budget or concurrency is zero.
\<close>

theorem constructor_defaults_on_falsy:
  "maxPages (new_scraper (opts\<lparr>opt_maxPages := Some 0\<rparr>)) = 200
   \<and> timeout (new_scraper (opts\<lparr>opt_timeout := Some 0\<rparr>)) = 5000
   \<and> concurrency (new_scraper (opts\<lparr>opt_concurrency := Some 0\<rparr>)) = 5
   \<and> maxPages (new_scraper (opts\<lparr>opt_maxPages := None\<rparr>)) = 200
   \<and> timeout (new_scraper (opts\<lparr>opt_timeout := None\<rparr>)) = 5000
   \<and> concurrency (new_scraper (opts\<lparr>opt_concurrency := None\<rparr>)) = 5
   \<and> maxPages (new_scraper opts) \<noteq> 0
   \<and> timeout (new_scraper opts) \<noteq> 0
   \<and> concurrency (new_scraper opts) \<noteq> 0"
  by (simp add: new_scraper_def js_or_default_def split: option.split)

section \<open>Result aggregation\<close>

text \<open>
  C3. For every crawl that returns a result, in sitemap mode and in recursive mode,
  the result's \<open>pageCount\<close> is the length of its \<open>pages\<close>.
\<close>

theorem pageCount_is_length: "scrape W st startUrl = Some (Inr (r, st')) \<Longrightarrow> pageCount r = length (result_pages r)"
  using scrape_via_loop[of W st startUrl r st'] by auto

text \<open>The crawl of a site with a sitemap returns two pages and the count 2.\<close>

theorem pageCount_is_length_witness:
  "\<exists>r st'. scrape sitemap_site (new_scraper no_options) ''https://x.io'' = Some (Inr (r, st'))
      \<and> pageCount r = length (result_pages r) \<and> pageCount r = 2"
proof -
  have "case scrape sitemap_site (new_scraper no_options) ''https://x.io'' of
          Some (Inr (r, s)) \<Rightarrow> pageCount r = 2 | _ \<Rightarrow> False"
    by code_simp
  then obtain r s where e: "scrape sitemap_site (new_scraper no_options) ''https://x.io'' = Some (Inr (r, s))"
    and n: "pageCount r = 2"
    by (auto split: option.splits sum.splits)
  have c: "pageCount r = length (result_pages r)" by (rule pageCount_is_length[OF e])
  show ?thesis by (intro conjI exI[of _ r] exI[of _ s]; fact)
qed

section \<open>The page budget\<close>

text \<open>
  C4. For every crawl, the number of pages in the result is below
  \<open>maxPages + concurrency\<close>: a batch of at most \<open>concurrency\<close> URLs is dispatched only
  while fewer than \<open>maxPages\<close> pages are collected, and each member appends at most one
  page. The bound is stated for every completion order that is a permutation of the
  issued fetches, and for every configuration with \<open>0 < maxPages + concurrency\<close>
  (with no pages at all, the bound says no more than that).
\<close>

theorem overshoot_bound:
  assumes "fair_sched W"
    and "0 < maxPages st + concurrency st"
    and "scrape W st startUrl = Some (Inr (r, st'))"
  shows "int (length (result_pages r)) < maxPages st + concurrency st"
proof -
  obtain base bp s0 where loop: "crawl_loop W base bp s0 = Some st'"
    and s0: "visited s0 = {}" "pages s0 = []" "same_config s0 st"
    and r: "result_pages r = pages st'"
    using scrape_via_loop[OF assms(3)] by blast
  let ?I = "\<lambda>s. same_config s st \<and>
     (int (length (pages s)) < maxPages s + concurrency s \<or> (concurrency s \<le> 0 \<and> loop_cond s))"
  have "?I st' \<and> \<not> loop_cond st'"
  proof (rule crawl_loop_invariant[OF loop, where I = ?I])
    show "?I s0"
      using assms(2) s0 by (simp add: same_config_def)
  next
    fix s assume I: "?I s" and c: "loop_cond s"
    let ?s = "loop_body W base bp s"
    have cfg: "same_config ?s s" using loop_body_frame[of W base bp s] by simp
    have len: "length (pages ?s) = length (pages s) + length (filter (page_collected W s) (sched W (batch_issued s)))"
      using arg_cong[OF loop_body_pages[of W base bp s], of length] by simp
    have le: "int (length (filter (page_collected W s) (sched W (batch_issued s)))) \<le> max 0 (concurrency s)"
    proof -
      have "length (filter (page_collected W s) (sched W (batch_issued s))) \<le> length (sched W (batch_issued s))"
        by simp
      also have "\<dots> = length (batch_issued s)" by (simp add: fair_sched_props[OF assms(1)])
      finally show ?thesis using batch_issued_props[of s] by linarith
    qed
    show "?I ?s"
    proof (cases "0 < concurrency s")
      case True
      have "int (length (pages s)) < maxPages s" using c by (simp add: loop_cond_def)
      with le len True have "int (length (pages ?s)) < maxPages s + concurrency s" by simp
      then show ?thesis using cfg I by (auto simp: same_config_def)
    next
      case False
      then have "batch_issued s = []" using batch_issued_props[of s] by simp
      then have "sched W (batch_issued s) = []"
        using fair_sched_props(1)[OF assms(1), of "[]"] by simp
      then have "?s = s\<lparr>queue := drop (nat (concurrency s)) (queue s),
           visited := visited s \<union> set (take (nat (concurrency s)) (queue s))\<rparr>"
        by (simp add: loop_body_idle)
      then have "?s = s" using False by simp
      then show ?thesis using I c False by simp
    qed
  qed
  then show ?thesis using r by (auto simp: same_config_def)
qed

text \<open>A budget of 2 with the default concurrency 5: three pages are collected, below 7.\<close>

theorem overshoot_bound_witness:
  "fair_sched fanout_site \<and> 0 < maxPages (budget 2) + concurrency (budget 2)
   \<and> (\<exists>r st'. scrape fanout_site (budget 2) ''https://x.io/a'' = Some (Inr (r, st'))
        \<and> int (length (result_pages r)) < maxPages (budget 2) + concurrency (budget 2)
        \<and> length (result_pages r) = 3)"
proof -
  have f: "fair_sched fanout_site" unfolding fanout_site_def by (rule fair_rev)
  have p: "0 < maxPages (budget 2) + concurrency (budget 2)" by code_simp
  have "case scrape fanout_site (budget 2) ''https://x.io/a'' of
          Some (Inr (r, s)) \<Rightarrow> length (result_pages r) = 3 | _ \<Rightarrow> False"
    by code_simp
  then obtain r s where e: "scrape fanout_site (budget 2) ''https://x.io/a'' = Some (Inr (r, s))"
    and n: "length (result_pages r) = 3"
    by (auto split: option.splits sum.splits)
  have c: "int (length (result_pages r)) < maxPages (budget 2) + concurrency (budget 2)"
    by (rule overshoot_bound[OF f p e])
  show ?thesis by (intro conjI exI[of _ r] exI[of _ s]; fact)
qed

text \<open>
  C2. The claim that the result never holds more than \<open>maxPages\<close> pages fails: with a
  budget of 2, a start page that links to two further pages gives a result of three
  pages, since the budget is checked between batches only.
\<close>

theorem page_budget_overshoot:
  "maxPages (budget 2) = 2
   \<and> map_option (map_sum id (\<lambda>(r, s). length (result_pages r)))
        (scrape fanout_site (budget 2) ''https://x.io/a'')
      = Some (Inr 3)"
  by code_simp

section \<open>Each URL is fetched at most once\<close>

text \<open>
  C5. No two pages of one result share their URL, even when a URL occurs several
  times in the queue or in one batch: \<open>scrapePage\<close> tests and records membership in
  \<open>visited\<close> before its suspension point.
\<close>

theorem result_urls_distinct:
  assumes "fair_sched W"
    and "scrape W st startUrl = Some (Inr (r, st'))"
  shows "distinct (map url (result_pages r))"
proof -
  obtain base bp s0 where loop: "crawl_loop W base bp s0 = Some st'"
    and s0: "visited s0 = {}" "pages s0 = []" "same_config s0 st"
    and r: "result_pages r = pages st'"
    using scrape_via_loop[OF assms(2)] by blast
  let ?I = "\<lambda>s. distinct (map url (pages s)) \<and> set (map url (pages s)) \<subseteq> visited s"
  have "?I st' \<and> \<not> loop_cond st'"
  proof (rule crawl_loop_invariant[OF loop, where I = ?I])
    show "?I s0" using s0 by simp
  next
    fix s assume I: "?I s" and c: "loop_cond s"
    let ?new = "filter (page_collected W s) (sched W (batch_issued s))"
    have d: "distinct ?new"
      using batch_issued_props[of s] by (simp add: fair_sched_props[OF assms(1)])
    have sub: "set ?new \<subseteq> set (take (nat (concurrency s)) (queue s)) - visited s"
      using batch_issued_props[of s] by (auto simp: fair_sched_props[OF assms(1)])
    show "?I (loop_body W base bp s)"
      using I d sub loop_body_frame[of W base bp s]
      by (auto simp: loop_body_pages simp del: set_map)
  qed
  then show ?thesis using r by simp
qed

text \<open>
  On the example site the start page links to \<open>/b\<close> twice, so the second batch is
  \<open>b, c, b\<close>; the fetches complete in reverse order.
\<close>

theorem result_urls_distinct_witness:
  "fair_sched fanout_site
   \<and> (\<exists>r st'. scrape fanout_site (budget 2) ''https://x.io/a'' = Some (Inr (r, st'))
        \<and> distinct (map url (result_pages r))
        \<and> map url (result_pages r) = [''https://x.io/a'', ''https://x.io/c'', ''https://x.io/b''])"
proof -
  have f: "fair_sched fanout_site" unfolding fanout_site_def by (rule fair_rev)
  have "case scrape fanout_site (budget 2) ''https://x.io/a'' of
          Some (Inr (r, s)) \<Rightarrow> map url (result_pages r) = [''https://x.io/a'', ''https://x.io/c'', ''https://x.io/b'']
        | _ \<Rightarrow> False"
    by code_simp
  then obtain r s where e: "scrape fanout_site (budget 2) ''https://x.io/a'' = Some (Inr (r, s))"
    and n: "map url (result_pages r) = [''https://x.io/a'', ''https://x.io/c'', ''https://x.io/b'']"
    by (auto split: option.splits sum.splits)
  have c: "distinct (map url (result_pages r))" by (rule result_urls_distinct[OF f e])
  show ?thesis by (intro conjI exI[of _ r] exI[of _ s]; fact)
qed

section \<open>Link following\<close>

text \<open>
  C6. In recursive mode, every URL that is ever enqueued (it is still in the queue or
  was dispatched, and so is in \<open>visited\<close>) or fetched is the start URL or is non-empty,
  starts with the origin of the start URL and contains none of the deny-list
  substrings; and the links of one page that are appended to the queue are, moreover,
  not in \<open>visited\<close> when they are appended.
\<close>

theorem recursive_mode_enqueues_only_in_scope:
  assumes "fair_sched W"
    and "tryFetchSitemap W st startUrl = Inr []"
    and "url_parse W startUrl = Some parsed"
    and "scrape W st startUrl = Some (Inr (r, st'))"
  shows "(\<forall>u \<in> visited st' \<union> set (queue st') \<union> set (map url (result_pages r)).
            u = startUrl \<or> (u \<noteq> [] \<and> prefix (origin parsed) u
                              \<and> (\<forall>pat\<in>set excludePatterns. \<not> js_includes u pat)))
         \<and> (\<exists>new. queue (follow_links W base basePath hs s) = queue s @ new
               \<and> (\<forall>u\<in>set new. u \<noteq> [] \<and> prefix base u \<and> u \<notin> visited s
                      \<and> (\<forall>pat\<in>set excludePatterns. \<not> js_includes u pat)))"
proof -
  let ?ok = "\<lambda>u. u = startUrl \<or> (u \<noteq> [] \<and> prefix (origin parsed) u
                              \<and> (\<forall>pat\<in>set excludePatterns. \<not> js_includes u pat))"
  obtain s0 where loop: "crawl_loop W (origin parsed) (getBasePath W startUrl) s0 = Some st'"
    and s0: "visited s0 = {}" "pages s0 = []" "queue s0 = [startUrl]"
    and r: "result_pages r = pages st'"
    using scrape_recursive[OF assms(2) assms(4) assms(3)] by blast
  let ?I = "\<lambda>s. (\<forall>u \<in> visited s \<union> set (queue s). ?ok u) \<and> set (map url (pages s)) \<subseteq> visited s"
  have "?I st' \<and> \<not> loop_cond st'"
  proof (rule crawl_loop_invariant[OF loop, where I = ?I])
    show "?I s0" using s0 by simp
  next
    fix s assume I: "?I s" and "loop_cond s"
    let ?s = "loop_body W (origin parsed) (getBasePath W startUrl) s"
    let ?batch = "take (nat (concurrency s)) (queue s)"
    have v: "visited ?s = visited s \<union> set ?batch"
      using loop_body_frame[of W "origin parsed" "getBasePath W startUrl" s] by simp
    obtain new where q: "queue ?s = drop (nat (concurrency s)) (queue s) @ new"
      and n: "\<forall>v\<in>set new. v \<noteq> [] \<and> prefix (origin parsed) v \<and> v \<notin> visited s
             \<and> (\<forall>pat\<in>set excludePatterns. \<not> js_includes v pat)"
      using loop_body_queue[of W "origin parsed" "getBasePath W startUrl" s] by blast
    have b: "set ?batch \<subseteq> set (queue s)" by (rule set_take_subset)
    have d: "set (drop (nat (concurrency s)) (queue s)) \<subseteq> set (queue s)" by (rule set_drop_subset)
    have p: "set (filter (page_collected W s) (sched W (batch_issued s))) \<subseteq> set ?batch"
      using batch_issued_props[of s] by (auto simp: fair_sched_props[OF assms(1)])
    have "\<forall>u \<in> visited ?s \<union> set (queue ?s). ?ok u"
      using I v q n b d by (auto simp only: Un_iff set_append dest: subsetD)
    moreover have "set (map url (pages ?s)) \<subseteq> visited ?s"
      using I p v by (auto simp: loop_body_pages simp del: set_map)
    ultimately show "?I ?s" by blast
  qed
  then have "\<forall>u \<in> visited st' \<union> set (queue st') \<union> set (map url (result_pages r)). ?ok u"
    using r by auto
  moreover have "\<exists>new. queue (follow_links W base basePath hs s) = queue s @ new
               \<and> (\<forall>u\<in>set new. u \<noteq> [] \<and> prefix base u \<and> u \<notin> visited s
                      \<and> (\<forall>pat\<in>set excludePatterns. \<not> js_includes u pat))"
    using follow_links_queue[of W base basePath hs s] by (simp add: shouldFollow_iff)
  ultimately show ?thesis by blast
qed

text \<open>
  The example of the specification: the page at \<open>https://example.com/docs/a\<close> links
  to \<open>/docs/b\<close> and \<open>/blog/post\<close>; the first is enqueued with the origin in front, the
  second is never enqueued.
\<close>

theorem recursive_mode_enqueues_only_in_scope_witness:
  "fair_sched docs_site
   \<and> tryFetchSitemap docs_site (new_scraper no_options) ''https://example.com/docs/a'' = Inr []
   \<and> url_parse docs_site ''https://example.com/docs/a''
       = Some \<lparr>origin = ''https://example.com'', pathname = ''/docs/a''\<rparr>
   \<and> (\<exists>r st'. scrape docs_site (new_scraper no_options) ''https://example.com/docs/a''
                   = Some (Inr (r, st'))
        \<and> ''https://example.com/blog/post'' \<notin> visited st'
        \<and> ''https://example.com/blog/post'' \<notin> set (queue st')
        \<and> map url (result_pages r) = [''https://example.com/docs/a'', ''https://example.com/docs/b''])
   \<and> queue (follow_links docs_site ''https://example.com'' ''/docs''
               [Some ''/docs/b'', Some ''/blog/post''] (new_scraper no_options))
       = [''https://example.com/docs/b'']"
proof -
  let ?S = "new_scraper no_options"
  let ?P = "\<lparr>origin = ''https://example.com'', pathname = ''/docs/a''\<rparr>"
  let ?blog = "''https://example.com/blog/post''"
  have f: "fair_sched docs_site" unfolding docs_site_def by (rule fair_id)
  have t: "tryFetchSitemap docs_site ?S ''https://example.com/docs/a'' = Inr []" by code_simp
  have p: "url_parse docs_site ''https://example.com/docs/a'' = Some ?P" by code_simp
  have q: "queue (follow_links docs_site ''https://example.com'' ''/docs''
               [Some ''/docs/b'', Some ''/blog/post''] ?S) = [''https://example.com/docs/b'']"
    by code_simp
  have "case scrape docs_site ?S ''https://example.com/docs/a'' of
          Some (Inr (r, s)) \<Rightarrow>
            map url (result_pages r) = [''https://example.com/docs/a'', ''https://example.com/docs/b'']
        | _ \<Rightarrow> False"
    by code_simp
  then obtain r s where e: "scrape docs_site ?S ''https://example.com/docs/a'' = Some (Inr (r, s))"
    and n: "map url (result_pages r) = [''https://example.com/docs/a'', ''https://example.com/docs/b'']"
    by (auto split: option.splits sum.splits)
  have scope: "\<forall>u \<in> visited s \<union> set (queue s) \<union> set (map url (result_pages r)).
              u = ''https://example.com/docs/a''
              \<or> (u \<noteq> [] \<and> prefix (origin ?P) u
                  \<and> (\<forall>pat\<in>set excludePatterns. \<not> js_includes u pat))"
    using recursive_mode_enqueues_only_in_scope[OF f t p e] by (rule conjunct1)
  have pat: "''/blog/'' \<in> set excludePatterns" by (simp add: excludePatterns_def)
  have inc: "js_includes ?blog ''/blog/''" by code_simp
  have ne: "?blog \<noteq> ''https://example.com/docs/a''" by simp
  have v: "?blog \<notin> visited s"
  proof
    assume "?blog \<in> visited s"
    then have "?blog \<in> visited s \<union> set (queue s) \<union> set (map url (result_pages r))"
      by (intro UnI1)
    from bspec[OF scope this] ne
    have "\<forall>pat\<in>set excludePatterns. \<not> js_includes ?blog pat"
      by (elim disjE conjE) (erule notE, assumption)
    from bspec[OF this pat] inc show False by (rule notE)
  qed
  have w: "?blog \<notin> set (queue s)"
  proof
    assume "?blog \<in> set (queue s)"
    then have "?blog \<in> visited s \<union> set (queue s) \<union> set (map url (result_pages r))"
      by (intro UnI1 UnI2)
    from bspec[OF scope this] ne
    have "\<forall>pat\<in>set excludePatterns. \<not> js_includes ?blog pat"
      by (elim disjE conjE) (erule notE, assumption)
    from bspec[OF this pat] inc show False by (rule notE)
  qed
  show ?thesis by (intro conjI exI[of _ r] exI[of _ s]; fact)
qed

text \<open>
  C1. The claim that a crawl seeded from a sitemap never enqueues a link found in a
  fetched page fails: \<open>scrapePage\<close> follows links in both modes. The sitemap of the
  example site lists \<open>https://x.io/a\<close> only, that page links to \<open>/b\<close>, and the result holds
  the page \<open>https://x.io/b\<close> as well.
\<close>

theorem sitemap_mode_follows_page_links:
  "tryFetchSitemap sitemap_site (new_scraper no_options) ''https://x.io'' = Inr [''https://x.io/a'']
   \<and> map_option (map_sum id (\<lambda>(r, s). map url (result_pages r)))
        (scrape sitemap_site (new_scraper no_options) ''https://x.io'')
      = Some (Inr [''https://x.io/a'', ''https://x.io/b''])"
  by code_simp

section \<open>The sitemap resolver\<close>

text \<open>
  C7. The claim that \<open>tryFetchSitemap\<close> tries the four listed locations in order and
  returns the list of the first that yields one fails: the code's list has five
  entries, the third (line 55) repeating the first (line 53). On \<open>flaky_site\<close> the
  first request for \<open>https://x.io/docs/sitemap.xml\<close> fails and the repeated one is
  answered, so the code returns that sitemap's list, where the four candidates of the
  claim, tried once each, lead to the list of \<open>https://x.io/sitemap.xml\<close>.
\<close>

theorem repeated_sitemap_probe:
  "url_parse flaky_site ''https://x.io/docs'' = Some \<lparr>origin = ''https://x.io'', pathname = ''/docs''\<rparr>
   \<and> tryFetchSitemap flaky_site (new_scraper no_options) ''https://x.io/docs''
       = Inr [''https://x.io/docs/late'']
   \<and> spec_resolve_sitemap flaky_site (new_scraper no_options)
        (spec_sitemap_candidates ''https://x.io/docs'' ''https://x.io'')
       = [''https://x.io/root'']"
  by code_simp

section \<open>Failed fetches\<close>




section \<open>Word count\<close>

text \<open>
  C9. The claim that \<open>wordCount\<close> is the number of white-space-delimited tokens of the
  content, also for empty content and for content with leading white space, fails:
  the empty content has no token and the word count 1, and the content \<open>" a"\<close> has one
  token and the word count 2.
\<close>

theorem wordCount_of_empty_content:
  "wordCount (extract_page ''h://x/a'' (html_page [] [])) = 1
   \<and> spec_token_count False [] = 0
   \<and> wordCount (extract_page ''h://x/a'' (html_page '' a'' [])) = 2
   \<and> spec_token_count False '' a'' = 1"
  by code_simp

end
